theory Spec2Isabelle
  imports Main "HOL-Library.Sublist" "HOL-Library.Multiset"
begin

section \<open>The git status column of defx (rplugin/python3/defx/column/git.py)\<close>

text \<open>
  The column keeps a sorted snapshot of the lines of \<^verbatim>\<open>git status --porcelain\<close> for one
  repository root and answers, for every candidate of the file tree, with a padded glyph.
  Every method of the class \<^verbatim>\<open>Column\<close> is embedded as a function over a record of the
  object's fields. Python exceptions are values of the type \<open>exn\<close>; a method that mutates
  the object returns the object after the call, also when it raises.
\<close>

subsection \<open>Exceptions\<close>

datatype exn =
    IndexError
  | KeyError
  | ValueError
  | OSError
  | CalledProcessError
  | UnicodeDecodeError
  | NvimError

type_synonym 'a result = "exn + 'a"

subsection \<open>The string operations the column uses\<close>

text \<open>\<^verbatim>\<open>s[i]\<close> with a non-negative constant index: IndexError past the end.\<close>

definition getitem :: "string \<Rightarrow> nat \<Rightarrow> char result" where
  "getitem s i = (if i < length s then Inr (s ! i) else Inl IndexError)"

text \<open>\<^verbatim>\<open>s.startswith(p)\<close>.\<close>

definition startswith :: "string \<Rightarrow> string \<Rightarrow> bool" where
  "startswith s p = prefix p s"

text \<open>
  \<^verbatim>\<open>s.replace(old, new)\<close>: every occurrence of \<open>old\<close>, found from the left without
  overlap, is replaced. With an empty \<open>old\<close> Python puts \<open>new\<close> before every character
  and at the end.
\<close>

fun replace :: "string \<Rightarrow> string \<Rightarrow> string \<Rightarrow> string" where
  "replace [] new s = new @ concat (map (\<lambda>c. c # new) s)"
| "replace (a # old) new [] = []"
| "replace (a # old) new (c # cs) =
     (if prefix (a # old) (c # cs)
      then new @ replace (a # old) new (drop (length old) cs)
      else c # replace (a # old) new cs)"

text \<open>\<^verbatim>\<open>s.split(sep)\<close> for a separator of one character.\<close>

fun split :: "char \<Rightarrow> string \<Rightarrow> string list" where
  "split sep [] = [[]]"
| "split sep (c # cs) =
     (if c = sep then [] # split sep cs
      else (case split sep cs of
              [] \<Rightarrow> [[c]]
            | w # ws \<Rightarrow> (c # w) # ws))"

text \<open>\<^verbatim>\<open>s.strip(c)\<close> for one character: it is removed from both ends, as often as it stands there.\<close>

definition strip :: "char \<Rightarrow> string \<Rightarrow> string" where
  "strip c s = rev (dropWhile (\<lambda>x. x = c) (rev (dropWhile (\<lambda>x. x = c) s)))"

definition newline :: char where
  "newline = CHR 0x0A"

subsection \<open>Column.get\_indicator\_name\<close>

text \<open>The names the method can return, in the order of its branches.\<close>

definition categories :: "string list" where
  "categories =
     [''Untracked'', ''Modified'', ''Staged'', ''Renamed'', ''Ignored'', ''Unmerged'', ''Unknown'']"

definition get_indicator_name :: "char \<Rightarrow> char \<Rightarrow> string" where
  "get_indicator_name us them =
     (if us = CHR ''?'' \<and> them = CHR ''?'' then ''Untracked''
      else if us = CHR '' '' \<and> them = CHR ''M'' then ''Modified''
      else if us \<in> set [CHR ''M'', CHR ''A'', CHR ''C''] then ''Staged''
      else if us = CHR ''R'' then ''Renamed''
      else if us = CHR ''!'' then ''Ignored''
      else if us = CHR ''U'' \<or> them = CHR ''U'' \<or> us = CHR ''A'' \<and> them = CHR ''A''
              \<or> us = CHR ''D'' \<and> them = CHR ''D'' then ''Unmerged''
      else ''Unknown'')"

subsection \<open>Column.sort, the comparator of the snapshot\<close>

text \<open>
  \<^verbatim>\<open>a[0] == c or a[1] == c\<close>: the second character is read only when the first one
  differs, and each read raises IndexError on a line that is too short.
\<close>

definition flagged :: "string \<Rightarrow> char \<Rightarrow> bool result" where
  "flagged a c =
     (case getitem a 0 of
        Inl e \<Rightarrow> Inl e
      | Inr x \<Rightarrow>
          if x = c then Inr True
          else (case getitem a 1 of
                  Inl e \<Rightarrow> Inl e
                | Inr y \<Rightarrow> Inr (y = c)))"

text \<open>
  \<^verbatim>\<open>Column.sort(a, b)\<close>. It answers -1 or 1 and never 0; \<open>b\<close> is looked at only
  when \<open>a\<close> carries an M and no U.
\<close>

definition sort_cmp :: "string \<Rightarrow> string \<Rightarrow> int result" where
  "sort_cmp a b =
     (case flagged a (CHR ''U'') of
        Inl e \<Rightarrow> Inl e
      | Inr au \<Rightarrow>
          if au then Inr (- 1)
          else (case flagged a (CHR ''M'') of
                  Inl e \<Rightarrow> Inl e
                | Inr am \<Rightarrow>
                    if am then
                      (case flagged b (CHR ''U'') of
                         Inl e \<Rightarrow> Inl e
                       | Inr bu \<Rightarrow> if \<not> bu then Inr (- 1) else Inr 1)
                    else Inr 1))"

subsection \<open>The interpreter's sorted with functools.cmp\_to\_key\<close>

text \<open>
  \<^verbatim>\<open>sorted(results, key=cmp_to_key(self.sort))\<close> wraps every line in a key object
  whose only comparison the sort uses is \<^verbatim>\<open>__lt__\<close>: \<^verbatim>\<open>x < y\<close> holds when the comparator
  answers a negative number. An exception of the comparator ends the sort.
\<close>

definition key_lt :: "('a \<Rightarrow> 'a \<Rightarrow> int result) \<Rightarrow> 'a \<Rightarrow> 'a \<Rightarrow> bool result" where
  "key_lt mycmp x y = (case mycmp x y of Inl e \<Rightarrow> Inl e | Inr r \<Rightarrow> Inr (r < 0))"

text \<open>
  The sort itself is the list sort of CPython (Objects/listobject.c, as in the versions
  3.6 to 3.11): it finds the run the list starts with, reverses it when it is strictly
  descending, and inserts every further element by binary insertion. This is the whole
  sort for a list of fewer than 64 elements, where the minimal run length is the length
  of the list; the embedding follows this path for every length and leaves the merging
  of several runs of a longer list out.

  \<open>count_desc\<close> and \<open>count_asc\<close> are the two loops of \<^verbatim>\<open>count_run\<close>: how many further
  elements continue the run after \<open>prev\<close>.
\<close>

fun count_desc :: "('a \<Rightarrow> 'a \<Rightarrow> bool result) \<Rightarrow> 'a \<Rightarrow> 'a list \<Rightarrow> nat result" where
  "count_desc lt prev [] = Inr 0"
| "count_desc lt prev (x # xs) =
     (case lt x prev of
        Inl e \<Rightarrow> Inl e
      | Inr b \<Rightarrow>
          if b then (case count_desc lt x xs of Inl e \<Rightarrow> Inl e | Inr n \<Rightarrow> Inr (Suc n))
          else Inr 0)"

fun count_asc :: "('a \<Rightarrow> 'a \<Rightarrow> bool result) \<Rightarrow> 'a \<Rightarrow> 'a list \<Rightarrow> nat result" where
  "count_asc lt prev [] = Inr 0"
| "count_asc lt prev (x # xs) =
     (case lt x prev of
        Inl e \<Rightarrow> Inl e
      | Inr b \<Rightarrow>
          if b then Inr 0
          else (case count_asc lt x xs of Inl e \<Rightarrow> Inl e | Inr n \<Rightarrow> Inr (Suc n)))"

text \<open>\<^verbatim>\<open>count_run\<close>: the length of the first run and whether it is descending.\<close>

definition count_run :: "('a \<Rightarrow> 'a \<Rightarrow> bool result) \<Rightarrow> 'a list \<Rightarrow> (nat \<times> bool) result" where
  "count_run lt xs =
     (case xs of
        [] \<Rightarrow> Inr (0, False)
      | [x] \<Rightarrow> Inr (1, False)
      | x0 # x1 # rest \<Rightarrow>
          (case lt x1 x0 of
             Inl e \<Rightarrow> Inl e
           | Inr b \<Rightarrow>
               if b then
                 (case count_desc lt x1 rest of Inl e \<Rightarrow> Inl e | Inr n \<Rightarrow> Inr (n + 2, True))
               else
                 (case count_asc lt x1 rest of Inl e \<Rightarrow> Inl e | Inr n \<Rightarrow> Inr (n + 2, False))))"

text \<open>
  The inner loop of \<^verbatim>\<open>binarysort\<close>: the place of \<open>pivot\<close> among \<open>xs[l:r]\<close>, found by
  halving; the pivot goes left of \<open>xs[p]\<close> exactly when \<open>pivot < xs[p]\<close>.
\<close>

function bisect :: "('a \<Rightarrow> 'a \<Rightarrow> bool result) \<Rightarrow> 'a \<Rightarrow> 'a list \<Rightarrow> nat \<Rightarrow> nat \<Rightarrow> nat result" where
  "bisect lt pivot xs l r =
     (if l < r then
        (let p = l + (r - l) div 2 in
         case lt pivot (xs ! p) of
           Inl e \<Rightarrow> Inl e
         | Inr b \<Rightarrow> if b then bisect lt pivot xs l p else bisect lt pivot xs (p + 1) r)
      else Inr l)"
  by pat_completeness auto
termination
  by (relation "measure (\<lambda>(lt, pivot, xs, l, r). r - l)") auto

declare bisect.simps [simp del]

text \<open>\<^verbatim>\<open>binarysort\<close>: \<open>done\<close> is the sorted front, the elements of \<open>rest\<close> are inserted in turn.\<close>

fun binarysort :: "('a \<Rightarrow> 'a \<Rightarrow> bool result) \<Rightarrow> 'a list \<Rightarrow> 'a list \<Rightarrow> 'a list result" where
  "binarysort lt front [] = Inr front"
| "binarysort lt front (pivot # rest) =
     (case bisect lt pivot front 0 (length front) of
        Inl e \<Rightarrow> Inl e
      | Inr k \<Rightarrow> binarysort lt (take k front @ pivot # drop k front) rest)"

definition sorted_py :: "('a \<Rightarrow> 'a \<Rightarrow> bool result) \<Rightarrow> 'a list \<Rightarrow> 'a list result" where
  "sorted_py lt xs =
     (if length xs < 2 then Inr xs
      else (case count_run lt xs of
              Inl e \<Rightarrow> Inl e
            | Inr (n, descending) \<Rightarrow>
                binarysort lt
                  (if descending then rev (take n xs) else take n xs)
                  (drop n xs)))"

text \<open>
  The priority tier of a status line: 0 when one of its two code characters is U, 1 when
  one is M and none is U, 2 otherwise.
\<close>

definition tier :: "string \<Rightarrow> nat" where
  "tier l =
     (if CHR ''U'' \<in> set (take 2 l) then 0
      else if CHR ''M'' \<in> set (take 2 l) then 1
      else 2)"

text \<open>The lines of one tier, in the order in which the list has them.\<close>

definition in_tier :: "nat \<Rightarrow> string list \<Rightarrow> string list" where
  "in_tier t ls = filter (\<lambda>l. tier l = t) ls"

subsection \<open>The object, the candidates and the surroundings\<close>

text \<open>
  \<^verbatim>\<open>git_root is not self.git_root\<close> compares objects, not values, so a string is kept with
  its identity. CPython shares the empty string and the strings of one character; every
  other string that \<^verbatim>\<open>decode\<close> or \<^verbatim>\<open>strip\<close> builds is a new object.
\<close>

datatype ident = Interned string | Heap nat

type_synonym pystr = "ident \<times> string"

text \<open>What the column does to the world outside: the processes it runs and the commands it sends to the editor.\<close>

datatype event =
    Run "string list" "string option"
  | Command string

text \<open>
  The fields of \<^verbatim>\<open>Column\<close> that the methods below read or write. \<open>allocated\<close> counts the
  string objects built so far and \<open>trace\<close> lists the events so far, the latest last; both
  belong to the interpreter and the world, not to the object, and are threaded with it.
\<close>

record column =
  cache :: "string list"
  git_root :: "pystr option"
  indicators :: "string \<rightharpoonup> string"
  column_length :: int
  show_ignored :: bool
  allocated :: nat
  trace :: "event list"

text \<open>\<^verbatim>\<open>Column.__init__\<close>, with the three editor variables it reads.\<close>

definition init :: "(string \<rightharpoonup> string) \<Rightarrow> int \<Rightarrow> bool \<Rightarrow> column" where
  "init inds len ign =
     \<lparr>cache = [], git_root = None, indicators = inds, column_length = len,
      show_ignored = ign, allocated = 0, trace = []\<rparr>"

text \<open>
  A candidate of the file tree. \<^verbatim>\<open>candidate.get('is_root', False)\<close> reads a missing key
  as False; the other two keys are always there.
\<close>

record candidate =
  action__path :: string
  is_directory :: bool
  is_root :: bool

text \<open>
  \<^verbatim>\<open>subprocess.run(cmd, stdout=PIPE, ..., cwd=path)\<close> either raises or completes with an exit
  code and the bytes of the standard output; the second field of \<open>Completed\<close> is what
  \<^verbatim>\<open>p.stdout.decode('utf-8')\<close> gives for them, the text or UnicodeDecodeError.
  \<^verbatim>\<open>vim.command\<close> may raise. Both are given by the surroundings.
\<close>

datatype outcome =
    Raises exn
  | Completed int "string result"

record env =
  run :: "string list \<Rightarrow> string option \<Rightarrow> outcome"
  vim_command :: "string \<Rightarrow> exn option"

definition new_str :: "string \<Rightarrow> column \<Rightarrow> pystr \<times> column" where
  "new_str v s =
     (if length v \<le> 1 then ((Interned v, v), s)
      else ((Heap (allocated s), v), s\<lparr>allocated := allocated s + 1\<rparr>))"

text \<open>\<^verbatim>\<open>str(x)\<close> and \<^verbatim>\<open>f'{x}'\<close> for a value that is a string or None.\<close>

definition str_of :: "pystr option \<Rightarrow> string" where
  "str_of r = (case r of None \<Rightarrow> ''None'' | Some (i, v) \<Rightarrow> v)"

subsection \<open>Column.format\<close>

text \<open>
  \<^verbatim>\<open>format(column, f'<{self.column_length}')\<close>: the text padded with spaces on the right
  up to the width, and unchanged when it is as long or longer. A negative width makes the
  format specifier \<^verbatim>\<open><-n\<close>, which a string refuses with ValueError.
\<close>

definition format :: "column \<Rightarrow> string \<Rightarrow> string result" where
  "format s col =
     (if column_length s < 0 then Inl ValueError
      else Inr (col @ replicate (nat (column_length s) - length col) (CHR '' '')))"

subsection \<open>Column.find\_in\_cache\<close>

text \<open>The loop over the snapshot: the first line whose text from offset 3 starts with \<open>path\<close>.\<close>

fun first_match :: "string \<Rightarrow> string list \<Rightarrow> string" where
  "first_match path [] = []"
| "first_match path (item # items) =
     (if startswith (drop 3 item) path then item else first_match path items)"

text \<open>
  The first two lines of the method: every occurrence of the root followed by a slash is
  taken out of the path, and a slash is added for a directory.
\<close>

definition relative_path :: "candidate \<Rightarrow> column \<Rightarrow> string" where
  "relative_path c s =
     replace (str_of (git_root s) @ ''/'') [] (action__path c)
       @ (if is_directory c then ''/'' else [])"

definition find_in_cache :: "candidate \<Rightarrow> column \<Rightarrow> string" where
  "find_in_cache c s = first_match (relative_path c s) (cache s)"

subsection \<open>Column.cache\_status\<close>

definition status_cmd :: "column \<Rightarrow> string list" where
  "status_cmd s =
     [''git'', ''status'', ''--porcelain'', ''-u''] @ (if show_ignored s then [''--ignored''] else [])"

text \<open>The non-empty lines of the output.\<close>

definition status_lines :: "string \<Rightarrow> string list" where
  "status_lines decoded = filter (\<lambda>line. line \<noteq> []) (split newline decoded)"

text \<open>
  The snapshot is emptied first. Only \<^verbatim>\<open>CalledProcessError\<close> is caught around the
  process; any other exception, also one of the decoding or of the sort, leaves the method.
\<close>

definition cache_status :: "env \<Rightarrow> pystr option \<Rightarrow> column \<Rightarrow> unit result \<times> column" where
  "cache_status e path s =
     (let s1 = s\<lparr>cache := []\<rparr>;
          cmd = status_cmd s1;
          cwd = map_option snd path;
          s2 = s1\<lparr>trace := trace s1 @ [Run cmd cwd]\<rparr>
      in case run e cmd cwd of
           Raises x \<Rightarrow> if x = CalledProcessError then (Inr (), s2) else (Inl x, s2)
         | Completed code out \<Rightarrow>
             (case out of
                Inl x \<Rightarrow> (Inl x, s2)
              | Inr decoded \<Rightarrow>
                  if decoded = [] then (Inr (), s2)
                  else (case sorted_py (key_lt sort_cmp) (status_lines decoded) of
                          Inl x \<Rightarrow> (Inl x, s2)
                        | Inr ls \<Rightarrow> (Inr (), s2\<lparr>cache := ls\<rparr>))))"

subsection \<open>Column.find\_git\_root\<close>

definition rev_parse_cmd :: "string list" where
  "rev_parse_cmd = [''git'', ''rev-parse'', ''--show-toplevel'']"

definition find_git_root :: "env \<Rightarrow> string \<Rightarrow> column \<Rightarrow> pystr option result \<times> column" where
  "find_git_root e path s =
     (let s1 = s\<lparr>trace := trace s @ [Run rev_parse_cmd (Some path)]\<rparr>
      in case run e rev_parse_cmd (Some path) of
           Raises x \<Rightarrow> if x = CalledProcessError then (Inr None, s1) else (Inl x, s1)
         | Completed code out \<Rightarrow>
             (case out of
                Inl x \<Rightarrow> (Inl x, s1)
              | Inr decoded \<Rightarrow>
                  if decoded = [] then (Inr None, s1)
                  else (case new_str (strip newline decoded) s1 of
                          (root, s2) \<Rightarrow> (Inr (Some root), s2))))"

subsection \<open>Column.get\<close>

text \<open>The message of the \<^verbatim>\<open>echomsg\<close> command; \<open>CHR 0x22\<close> is the double quote.\<close>

definition echomsg :: "string \<Rightarrow> string" where
  "echomsg path = ''echomsg '' @ [CHR 0x22] @ ''detect git root target'' @ path @ [CHR 0x22]"

text \<open>
  The part of \<^verbatim>\<open>get\<close> after the block for a root candidate (from \<^verbatim>\<open>if not self.cache\<close>
  on): it reads the snapshot and changes nothing.
\<close>

definition get_entry :: "string \<Rightarrow> candidate \<Rightarrow> column \<Rightarrow> string result" where
  "get_entry dflt c s =
     (if cache s = [] then Inr dflt
      else (let entry = find_in_cache c s
            in if entry = [] then Inr dflt
               else (case getitem entry 0 of
                       Inl x \<Rightarrow> Inl x
                     | Inr us \<Rightarrow>
                         (case getitem entry 1 of
                            Inl x \<Rightarrow> Inl x
                          | Inr them \<Rightarrow>
                              (case indicators s (get_indicator_name us them) of
                                 None \<Rightarrow> Inl KeyError
                               | Some glyph \<Rightarrow> format s glyph)))))"

text \<open>
  \<^verbatim>\<open>get\<close>. For a root candidate whose path does not start with the current root it asks
  git for the root, tells the editor, and when the answer is not the very object it holds
  (an answer of None while it holds None is that object) it stores the answer and
  refreshes the snapshot for it. When the answer is the object it holds, the call goes on
  as for any other candidate.
\<close>

definition get :: "env \<Rightarrow> candidate \<Rightarrow> column \<Rightarrow> string result \<times> column" where
  "get e c s =
     (case format s [] of
        Inl x \<Rightarrow> (Inl x, s)
      | Inr dflt \<Rightarrow>
          if is_root c then
            (if git_root s \<noteq> None \<and> startswith (action__path c) (str_of (git_root s))
             then (Inr dflt, s)
             else (case find_git_root e (action__path c) s of
                     (Inl x, s1) \<Rightarrow> (Inl x, s1)
                   | (Inr root, s1) \<Rightarrow>
                       (let s2 = s1\<lparr>trace := trace s1 @ [Command (echomsg (action__path c))]\<rparr>
                        in case vim_command e (echomsg (action__path c)) of
                             Some x \<Rightarrow> (Inl x, s2)
                           | None \<Rightarrow>
                               if root \<noteq> git_root s2 then
                                 (case cache_status e root (s2\<lparr>git_root := root\<rparr>) of
                                    (Inl x, s3) \<Rightarrow> (Inl x, s3)
                                  | (Inr u, s3) \<Rightarrow> (Inr dflt, s3))
                               else (get_entry dflt c s2, s2))))
          else (get_entry dflt c s, s))"

text \<open>How many refreshes the events hold: every call of \<open>cache_status\<close> runs git status once.\<close>

definition is_status_run :: "event \<Rightarrow> bool" where
  "is_status_run ev =
     (case ev of
        Run cmd cwd \<Rightarrow> take 2 cmd = [''git'', ''status'']
      | Command m \<Rightarrow> False)"

definition refreshes :: "column \<Rightarrow> nat" where
  "refreshes s = length (filter is_status_run (trace s))"

subsection \<open>Concrete surroundings, objects and candidates\<close>

text \<open>
  The examples below run the column in these worlds: one where git prints a given text
  for each of the two queries and exits with a given code, and one where git cannot be
  started (\<^verbatim>\<open>subprocess.run\<close> raises FileNotFoundError, an OSError).
\<close>

definition unlines :: "string list \<Rightarrow> string" where
  "unlines ls = concat (map (\<lambda>l. l @ [newline]) ls)"

definition git_prints :: "int \<Rightarrow> string \<Rightarrow> string \<Rightarrow> env" where
  "git_prints code root_out status_out =
     \<lparr>run = (\<lambda>cmd cwd. if cmd = rev_parse_cmd then Completed code (Inr root_out)
                         else Completed code (Inr status_out)),
      vim_command = (\<lambda>m. None)\<rparr>"

definition git_missing :: env where
  "git_missing = \<lparr>run = (\<lambda>cmd cwd. Raises OSError), vim_command = (\<lambda>m. None)\<rparr>"

text \<open>A glyph of one character for every category, and a column of width 2.\<close>

definition glyphs :: "string \<rightharpoonup> string" where
  "glyphs = map_of [(''Untracked'', ''?''), (''Modified'', ''M''), (''Staged'', ''S''),
                    (''Renamed'', ''R''), (''Ignored'', ''I''), (''Unmerged'', ''U''), (''Unknown'', ''X'')]"

text \<open>A column that holds the root \<open>root\<close> and the snapshot \<open>ls\<close>.\<close>

definition holding :: "string \<Rightarrow> string list \<Rightarrow> column" where
  "holding root ls = (init glyphs 2 False)\<lparr>git_root := Some (Heap 0, root), cache := ls, allocated := 1\<rparr>"

definition entry_of :: "string \<Rightarrow> bool \<Rightarrow> bool \<Rightarrow> candidate" where
  "entry_of path dir root = \<lparr>action__path = path, is_directory = dir, is_root = root\<rparr>"

section \<open>Properties\<close>

subsection \<open>Classification of a code pair\<close>

lemma categories_distinct: "distinct categories"
  by (simp add: categories_def)

text \<open>
  Claim C1. For every pair of one-character codes, \<open>get_indicator_name\<close> returns one of
  the seven category names (it is a total function, and the seven names are pairwise
  different), and the name is the one of the first rule that matches, the rules tried in
  the order Untracked, Modified, Staged, Renamed, Ignored, Unmerged, Unknown. Because the
  Staged rule stands before the Unmerged rule, the pair (A, A) is Staged.
\<close>

theorem get_indicator_name_rules:
  "get_indicator_name us them \<in> set categories
   \<and> distinct categories
   \<and> length categories = 7
   \<and> get_indicator_name us them =
       (if (us, them) = (CHR ''?'', CHR ''?'') then ''Untracked''
        else if (us, them) = (CHR '' '', CHR ''M'') then ''Modified''
        else if us \<in> {CHR ''M'', CHR ''A'', CHR ''C''} then ''Staged''
        else if us = CHR ''R'' then ''Renamed''
        else if us = CHR ''!'' then ''Ignored''
        else if us = CHR ''U'' \<or> them = CHR ''U'' \<or> (us, them) = (CHR ''A'', CHR ''A'')
                \<or> (us, them) = (CHR ''D'', CHR ''D'') then ''Unmerged''
        else ''Unknown'')
   \<and> get_indicator_name (CHR ''A'') (CHR ''A'') = ''Staged''"
  by (simp add: get_indicator_name_def categories_def)

subsection \<open>The sort: what holds for every comparison\<close>

text \<open>
  Whatever the comparison answers, a sort that returns has rearranged its input and lost
  or added nothing.
\<close>

lemma mset_take_drop: "mset (take k xs) + mset (drop k xs) = mset xs"
  by (metis append_take_drop_id mset_append)

lemma binarysort_mset: "binarysort lt front rest = Inr ys \<Longrightarrow> mset ys = mset front + mset rest"
  by (induction rest arbitrary: front) (auto split: sum.splits simp: mset_take_drop)

lemma sorted_py_mset: "sorted_py lt xs = Inr ys \<Longrightarrow> mset ys = mset xs"
proof -
  assume a: "sorted_py lt xs = Inr ys"
  show ?thesis
  proof (cases "length xs < 2")
    case True with a show ?thesis by (simp add: sorted_py_def)
  next
    case False
    with a obtain n d where cr: "count_run lt xs = Inr (n, d)"
      and bs: "binarysort lt (if d then rev (take n xs) else take n xs) (drop n xs) = Inr ys"
      by (auto simp: sorted_py_def split: sum.splits)
    from binarysort_mset[OF bs] have "mset ys = mset (take n xs) + mset (drop n xs)"
      by (simp split: if_splits)
    then show ?thesis by (metis append_take_drop_id mset_append)
  qed
qed

subsection \<open>The sort of well-formed status lines\<close>

text \<open>
  On lines of at least two characters the comparator raises nothing, and \<open>a < b\<close> says
  that \<open>a\<close> is flagged U or M and that its tier is not above the tier of \<open>b\<close>. Two lines
  of tier 0, or two of tier 1, are each less than the other.
\<close>

lemma key_lt_wf:
  assumes "2 \<le> length a" "2 \<le> length b"
  shows "key_lt sort_cmp a b = Inr (tier a < 2 \<and> tier a \<le> tier b)"
proof -
  obtain a0 a1 ar where a: "a = a0 # a1 # ar" using assms(1) by (cases a; cases "tl a") auto
  obtain b0 b1 br where b: "b = b0 # b1 # br" using assms(2) by (cases b; cases "tl b") auto
  show ?thesis unfolding a b
    by (simp add: key_lt_def sort_cmp_def flagged_def getitem_def tier_def)
qed

lemma tier_le_2: "tier l \<le> 2"
  by (simp add: tier_def)

lemma count_desc_wf:
  assumes "2 \<le> length prev" "\<forall>l\<in>set xs. 2 \<le> length l"
  shows "\<exists>n. count_desc (key_lt sort_cmp) prev xs = Inr n \<and> n \<le> length xs
             \<and> sorted_wrt (\<lambda>a b. b \<le> a) (map tier (prev # take n xs))
             \<and> (\<forall>l\<in>set (take n xs). tier l < 2)"
  using assms
proof (induction xs arbitrary: prev)
  case Nil
  then show ?case by simp
next
  case (Cons x xs)
  have lt: "key_lt sort_cmp x prev = Inr (tier x < 2 \<and> tier x \<le> tier prev)"
    using Cons.prems by (simp add: key_lt_wf)
  show ?case
  proof (cases "tier x < 2 \<and> tier x \<le> tier prev")
    case False
    with lt show ?thesis by simp
  next
    case True
    from Cons.IH[of x] Cons.prems obtain n where n:
      "count_desc (key_lt sort_cmp) x xs = Inr n" "n \<le> length xs"
      "sorted_wrt (\<lambda>a b. b \<le> a) (map tier (x # take n xs))"
      "\<forall>l\<in>set (take n xs). tier l < 2"
      by auto
    have "count_desc (key_lt sort_cmp) prev (x # xs) = Inr (Suc n)"
      using lt True n(1) by simp
    moreover have "sorted_wrt (\<lambda>a b. b \<le> a) (map tier (prev # take (Suc n) (x # xs)))"
      using n(3) True by auto
    moreover have "\<forall>l\<in>set (take (Suc n) (x # xs)). tier l < 2"
      using n(4) True by simp
    ultimately show ?thesis using n(2) by auto
  qed
qed

lemma count_asc_wf:
  assumes "2 \<le> length prev" "\<forall>l\<in>set xs. 2 \<le> length l"
  shows "\<exists>n. count_asc (key_lt sort_cmp) prev xs = Inr n \<and> n \<le> length xs
             \<and> sorted (map tier (prev # take n xs))"
  using assms
proof (induction xs arbitrary: prev)
  case Nil
  then show ?case by simp
next
  case (Cons x xs)
  have lt: "key_lt sort_cmp x prev = Inr (tier x < 2 \<and> tier x \<le> tier prev)"
    using Cons.prems by (simp add: key_lt_wf)
  show ?case
  proof (cases "tier x < 2 \<and> tier x \<le> tier prev")
    case True
    with lt show ?thesis by simp
  next
    case False
    then have le: "tier prev \<le> tier x" using tier_le_2[of prev] by auto
    from Cons.IH[of x] Cons.prems obtain n where n:
      "count_asc (key_lt sort_cmp) x xs = Inr n" "n \<le> length xs"
      "sorted (map tier (x # take n xs))"
      by auto
    have "count_asc (key_lt sort_cmp) prev (x # xs) = Inr (Suc n)"
      using lt False n(1) by simp
    moreover have "sorted (map tier (prev # take (Suc n) (x # xs)))"
      using n(3) le by auto
    ultimately show ?thesis using n(2) by auto
  qed
qed

lemma count_run_wf:
  assumes "\<forall>l\<in>set xs. 2 \<le> length l"
  shows "\<exists>n d. count_run (key_lt sort_cmp) xs = Inr (n, d) \<and> n \<le> length xs
             \<and> sorted (map tier (if d then rev (take n xs) else take n xs))
             \<and> filter (\<lambda>l. tier l = 2) (if d then rev (take n xs) else take n xs)
                 = filter (\<lambda>l. tier l = 2) (take n xs)"
proof (cases xs)
  case Nil
  then show ?thesis by (auto simp: count_run_def)
next
  case (Cons x0 xs')
  show ?thesis
  proof (cases xs')
    case Nil
    with Cons show ?thesis by (auto simp: count_run_def)
  next
    case (Cons x1 rest)
    note xs = \<open>xs = x0 # xs'\<close> Cons
    have wf: "2 \<le> length x0" "2 \<le> length x1" "\<forall>l\<in>set rest. 2 \<le> length l"
      using assms xs by auto
    have lt: "key_lt sort_cmp x1 x0 = Inr (tier x1 < 2 \<and> tier x1 \<le> tier x0)"
      using wf by (simp add: key_lt_wf)
    show ?thesis
    proof (cases "tier x1 < 2 \<and> tier x1 \<le> tier x0")
      case True
      from count_desc_wf[OF wf(2,3)] obtain n where n:
        "count_desc (key_lt sort_cmp) x1 rest = Inr n" "n \<le> length rest"
        "sorted_wrt (\<lambda>a b. b \<le> a) (map tier (x1 # take n rest))"
        "\<forall>l\<in>set (take n rest). tier l < 2"
        by auto
      have cr: "count_run (key_lt sort_cmp) xs = Inr (n + 2, True)"
        using lt True n(1) xs by (simp add: count_run_def)
      have tk: "take (n + 2) xs = x0 # x1 # take n rest" using xs by simp
      have "sorted_wrt (\<lambda>a b. b \<le> a) (map tier (x0 # x1 # take n rest))"
        using n(3) True by auto
      then have s: "sorted (map tier (rev (take (n + 2) xs)))"
        unfolding tk by (simp only: rev_map[symmetric] sorted_wrt_rev)
      have nt1: "tier x1 \<noteq> 2" using True by simp
      have nt2: "filter (\<lambda>l. tier l = 2) (take n rest) = []"
        using n(4) by (auto simp: filter_empty_conv)
      have "filter (\<lambda>l. tier l = 2) (rev (take (n + 2) xs)) = filter (\<lambda>l. tier l = 2) (take (n + 2) xs)"
        unfolding tk by (simp add: nt1 nt2 rev_filter[symmetric])
      with cr s n(2) xs show ?thesis by (intro exI[of _ "n + 2"] exI[of _ True]) simp
    next
      case False
      then have le: "tier x0 \<le> tier x1" using tier_le_2[of x0] by auto
      from count_asc_wf[OF wf(2,3)] obtain n where n:
        "count_asc (key_lt sort_cmp) x1 rest = Inr n" "n \<le> length rest"
        "sorted (map tier (x1 # take n rest))"
        by auto
      have cr: "count_run (key_lt sort_cmp) xs = Inr (n + 2, False)"
        using lt False n(1) xs by (simp add: count_run_def)
      have tk: "take (n + 2) xs = x0 # x1 # take n rest" using xs by simp
      have "sorted (map tier (take (n + 2) xs))"
        unfolding tk using n(3) le by auto
      with cr n(2) xs show ?thesis by (intro exI[of _ "n + 2"] exI[of _ False]) simp
    qed
  qed
qed

lemma bisect_wf:
  assumes "sorted (map tier xs)" "\<forall>x\<in>set xs. 2 \<le> length x" "2 \<le> length pivot"
    and "l \<le> r" "r \<le> length xs"
    and "\<forall>i<l. tier (xs ! i) \<le> tier pivot"
    and "\<forall>i. r \<le> i \<and> i < length xs \<longrightarrow> tier pivot \<le> tier (xs ! i)"
    and "tier pivot = 2 \<longrightarrow> r = length xs"
  shows "\<exists>k. bisect (key_lt sort_cmp) pivot xs l r = Inr k \<and> k \<le> length xs
             \<and> (\<forall>i<k. tier (xs ! i) \<le> tier pivot)
             \<and> (\<forall>i. k \<le> i \<and> i < length xs \<longrightarrow> tier pivot \<le> tier (xs ! i))
             \<and> (tier pivot = 2 \<longrightarrow> k = length xs)"
  using assms
proof (induction "key_lt sort_cmp" pivot xs l r rule: bisect.induct)
  case (1 pivot xs l r)
  show ?case
  proof (cases "l < r")
    case False
    then have "l = r" using "1.prems" by simp
    with "1.prems" show ?thesis by (simp add: bisect.simps)
  next
    case True
    define p where "p = l + (r - l) div 2"
    have p: "l \<le> p" "p < r" "p < length xs" using True "1.prems"(5) by (auto simp: p_def)
    have mono: "\<And>i j. i \<le> j \<Longrightarrow> j < length xs \<Longrightarrow> tier (xs ! i) \<le> tier (xs ! j)"
      using "1.prems"(1) by (auto simp: sorted_iff_nth_mono)
    let ?b = "tier pivot < 2 \<and> tier pivot \<le> tier (xs ! p)"
    have lt: "key_lt sort_cmp pivot (xs ! p) = Inr ?b"
      using "1.prems"(2,3) p(3) by (simp add: key_lt_wf)
    show ?thesis
    proof (cases ?b)
      case b: True
      have step: "bisect (key_lt sort_cmp) pivot xs l r = bisect (key_lt sort_cmp) pivot xs l p"
        using True lt b by (subst bisect.simps) (simp add: p_def[symmetric] Let_def)
      have "\<forall>i. p \<le> i \<and> i < length xs \<longrightarrow> tier pivot \<le> tier (xs ! i)"
        using b mono by (meson le_trans)
      moreover have "tier pivot = 2 \<longrightarrow> p = length xs" using b by simp
      ultimately show ?thesis
        using "1.hyps"(1)[OF True p_def lt b "1.prems"(1,2,3) p(1) _ "1.prems"(6)] p step
        by simp
    next
      case b: False
      have step: "bisect (key_lt sort_cmp) pivot xs l r = bisect (key_lt sort_cmp) pivot xs (p + 1) r"
        using True lt b by (subst bisect.simps) (simp add: p_def[symmetric] Let_def)
      have "\<forall>i<p + 1. tier (xs ! i) \<le> tier pivot"
      proof (intro allI impI)
        fix i assume "i < p + 1"
        then have "tier (xs ! i) \<le> tier (xs ! p)" using mono[of i p] p(3) by simp
        moreover have "tier pivot = 2 \<or> tier (xs ! p) < tier pivot" using b tier_le_2[of pivot] by auto
        ultimately show "tier (xs ! i) \<le> tier pivot" using tier_le_2[of "xs ! i"] by auto
      qed
      then show ?thesis
        using "1.hyps"(2)[OF True p_def lt b "1.prems"(1,2,3) _ "1.prems"(5) _ "1.prems"(7,8)] p step
        by simp
    qed
  qed
qed

lemma sorted_insert_at:
  assumes "sorted (map tier xs)" "k \<le> length xs"
    and "\<forall>i<k. tier (xs ! i) \<le> tier pivot"
    and "\<forall>i. k \<le> i \<and> i < length xs \<longrightarrow> tier pivot \<le> tier (xs ! i)"
  shows "sorted (map tier (take k xs @ pivot # drop k xs))"
proof -
  have 1: "sorted (map tier (take k xs))" "sorted (map tier (drop k xs))"
    using assms(1) by (simp_all add: take_map[symmetric] drop_map[symmetric] sorted_wrt_take sorted_wrt_drop)
  have 2: "\<forall>x\<in>set (take k xs). tier x \<le> tier pivot"
    using assms(2,3) by (auto simp: in_set_conv_nth)
  have 3: "\<forall>x\<in>set (drop k xs). tier pivot \<le> tier x"
    using assms(2,4) by (auto simp: in_set_conv_nth)
  have 4: "\<forall>x\<in>set (take k xs). \<forall>y\<in>set (drop k xs). tier x \<le> tier y"
    using 2 3 by (meson le_trans)
  show ?thesis using 1 2 3 4 by (auto simp: sorted_append)
qed

lemma binarysort_wf:
  assumes "sorted (map tier front)" "\<forall>x\<in>set front. 2 \<le> length x" "\<forall>x\<in>set rest. 2 \<le> length x"
  shows "\<exists>ys. binarysort (key_lt sort_cmp) front rest = Inr ys \<and> sorted (map tier ys)
           \<and> filter (\<lambda>l. tier l = 2) ys = filter (\<lambda>l. tier l = 2) front @ filter (\<lambda>l. tier l = 2) rest"
  using assms
proof (induction rest arbitrary: front)
  case Nil
  then show ?case by simp
next
  case (Cons pivot rest)
  from bisect_wf[of front pivot 0 "length front"] Cons.prems
  obtain k where k: "bisect (key_lt sort_cmp) pivot front 0 (length front) = Inr k" "k \<le> length front"
      "\<forall>i<k. tier (front ! i) \<le> tier pivot"
      "\<forall>i. k \<le> i \<and> i < length front \<longrightarrow> tier pivot \<le> tier (front ! i)"
      "tier pivot = 2 \<longrightarrow> k = length front"
    by auto
  let ?f = "take k front @ pivot # drop k front"
  have s: "sorted (map tier ?f)" using sorted_insert_at[OF Cons.prems(1) k(2,3,4)] .
  have w: "\<forall>x\<in>set ?f. 2 \<le> length x"
    using Cons.prems(2,3) by (auto dest: in_set_takeD in_set_dropD)
  from Cons.IH[OF s w] Cons.prems(3) obtain ys where ys:
    "binarysort (key_lt sort_cmp) ?f rest = Inr ys" "sorted (map tier ys)"
    "filter (\<lambda>l. tier l = 2) ys = filter (\<lambda>l. tier l = 2) ?f @ filter (\<lambda>l. tier l = 2) rest"
    by auto
  have f: "filter (\<lambda>l. tier l = 2) ?f = filter (\<lambda>l. tier l = 2) front @ filter (\<lambda>l. tier l = 2) [pivot]"
  proof (cases "tier pivot = 2")
    case True
    with k(5) show ?thesis by simp
  next
    case False
    have "filter (\<lambda>l. tier l = 2) (take k front) @ filter (\<lambda>l. tier l = 2) (drop k front)
          = filter (\<lambda>l. tier l = 2) front"
      by (metis append_take_drop_id filter_append)
    with False show ?thesis by simp
  qed
  have "filter (\<lambda>l. tier l = 2) ys
        = filter (\<lambda>l. tier l = 2) front @ filter (\<lambda>l. tier l = 2) (pivot # rest)"
    by (simp only: ys(3) f) simp
  moreover have "binarysort (key_lt sort_cmp) front (pivot # rest) = Inr ys"
    using k(1) ys(1) by simp
  ultimately show ?case using ys(2) by blast
qed

lemma sorted_py_wf:
  assumes "\<forall>l\<in>set xs. 2 \<le> length l"
  shows "\<exists>ys. sorted_py (key_lt sort_cmp) xs = Inr ys \<and> mset ys = mset xs \<and> sorted (map tier ys)
           \<and> filter (\<lambda>l. tier l = 2) ys = filter (\<lambda>l. tier l = 2) xs"
proof (cases "length xs < 2")
  case True
  then have "sorted (map tier xs)" by (cases xs; cases "tl xs") auto
  with True show ?thesis by (simp add: sorted_py_def)
next
  case False
  from count_run_wf[OF assms] obtain n d where nd:
    "count_run (key_lt sort_cmp) xs = Inr (n, d)" "n \<le> length xs"
    "sorted (map tier (if d then rev (take n xs) else take n xs))"
    "filter (\<lambda>l. tier l = 2) (if d then rev (take n xs) else take n xs) = filter (\<lambda>l. tier l = 2) (take n xs)"
    by blast
  let ?run = "if d then rev (take n xs) else take n xs"
  have w1: "\<forall>x\<in>set ?run. 2 \<le> length x" using assms by (auto dest: in_set_takeD)
  have w2: "\<forall>x\<in>set (drop n xs). 2 \<le> length x" using assms by (auto dest: in_set_dropD)
  from binarysort_wf[OF nd(3) w1 w2] obtain ys where ys:
    "binarysort (key_lt sort_cmp) ?run (drop n xs) = Inr ys" "sorted (map tier ys)"
    "filter (\<lambda>l. tier l = 2) ys = filter (\<lambda>l. tier l = 2) ?run @ filter (\<lambda>l. tier l = 2) (drop n xs)"
    by blast
  have r: "sorted_py (key_lt sort_cmp) xs = Inr ys"
    using False nd(1) ys(1) by (simp add: sorted_py_def)
  have "filter (\<lambda>l. tier l = 2) ys = filter (\<lambda>l. tier l = 2) (take n xs) @ filter (\<lambda>l. tier l = 2) (drop n xs)"
    using ys(3) nd(4) by simp
  then have "filter (\<lambda>l. tier l = 2) ys = filter (\<lambda>l. tier l = 2) xs"
    by (metis append_take_drop_id filter_append)
  with r ys(2) sorted_py_mset[OF r] show ?thesis by simp
qed

lemma sorted_tiers_split:
  assumes "sorted (map tier ys)"
  shows "ys = in_tier 0 ys @ in_tier 1 ys @ in_tier 2 ys"
  using assms
proof (induction ys)
  case Nil
  then show ?case by (simp add: in_tier_def)
next
  case (Cons y ys)
  then have IH: "ys = in_tier 0 ys @ in_tier 1 ys @ in_tier 2 ys"
    and le: "\<forall>z\<in>set ys. tier y \<le> tier z" by auto
  consider "tier y = 0" | "tier y = 1" | "tier y = 2" using tier_le_2[of y] by linarith
  then show ?case
  proof cases
    case 1
    then show ?thesis using IH by (simp add: in_tier_def)
  next
    case 2
    then have "in_tier 0 ys = []" using le by (auto simp: in_tier_def filter_empty_conv)
    then show ?thesis using 2 IH by (simp add: in_tier_def)
  next
    case 3
    then have "in_tier 0 ys = []" "in_tier 1 ys = []"
      using le by (auto simp: in_tier_def filter_empty_conv)
    then show ?thesis using 3 IH by (simp add: in_tier_def)
  qed
qed

text \<open>
  Claim C2, as amended. Sorting any list of status lines of at least two characters
  returns a rearrangement of the list in which every line flagged U stands before every
  line flagged M and not U, and these before every line that is neither; the lines that
  are neither keep the order of the input. The order among the lines flagged U, and among
  the lines flagged M, is not said to be the input's.
\<close>

theorem sorted_py_tiers:
  assumes "\<forall>l\<in>set ls. 2 \<le> length l"
  shows "\<exists>ys. sorted_py (key_lt sort_cmp) ls = Inr ys
           \<and> mset ys = mset ls
           \<and> sorted (map tier ys)
           \<and> ys = in_tier 0 ys @ in_tier 1 ys @ in_tier 2 ls"
proof -
  from sorted_py_wf[OF assms] obtain ys where ys:
    "sorted_py (key_lt sort_cmp) ls = Inr ys" "mset ys = mset ls" "sorted (map tier ys)"
    "in_tier 2 ys = in_tier 2 ls"
    by (auto simp: in_tier_def)
  from sorted_tiers_split[OF ys(3)] ys(4) have "ys = in_tier 0 ys @ in_tier 1 ys @ in_tier 2 ls"
    by simp
  with ys show ?thesis by blast
qed

theorem sorted_py_tiers_witness:
  "\<exists>ys. sorted_py (key_lt sort_cmp) [''M  a.txt'', ''UU b.txt'', ''?? d.txt'', '' M c.txt''] = Inr ys
      \<and> mset ys = mset [''M  a.txt'', ''UU b.txt'', ''?? d.txt'', '' M c.txt'']
      \<and> sorted (map tier ys)
      \<and> ys = in_tier 0 ys @ in_tier 1 ys @ [''?? d.txt'']"
  using sorted_py_tiers[of "[''M  a.txt'', ''UU b.txt'', ''?? d.txt'', '' M c.txt'']"]
  by (simp add: in_tier_def tier_def)

text \<open>
  Claim C2 as stated asks for the input order inside every tier. The comparator never
  answers 0, so two lines flagged M are each less than the other, and the sort puts the
  later one first: \<^verbatim>\<open>M  a.txt\<close> stands before \<^verbatim>\<open> M c.txt\<close> in the input and after it
  in the result.
\<close>

theorem sorted_py_stable_counterexample:
  "sorted_py (key_lt sort_cmp) [''M  a.txt'', ''UU b.txt'', '' M c.txt'']
     = Inr [''UU b.txt'', '' M c.txt'', ''M  a.txt'']
   \<and> in_tier 1 [''M  a.txt'', ''UU b.txt'', '' M c.txt''] = [''M  a.txt'', '' M c.txt'']
   \<and> in_tier 1 [''UU b.txt'', '' M c.txt'', ''M  a.txt''] = ['' M c.txt'', ''M  a.txt'']"
  by (simp add: sorted_py_def count_run_def key_lt_def sort_cmp_def flagged_def getitem_def
        bisect.simps in_tier_def tier_def)

subsection \<open>Looking a candidate up in the snapshot\<close>

text \<open>
  Claim C3 says that the lookup strips the leading root from the path and leaves the rest
  of the path as it is. \<open>find_in_cache\<close> calls \<^verbatim>\<open>str.replace\<close>, which takes out every
  occurrence of the root followed by a slash: with the root \<^verbatim>\<open>/p\<close>, the file
  \<^verbatim>\<open>/p/lib/p/x.py\<close> is looked up as \<^verbatim>\<open>libx.py\<close> and not as \<^verbatim>\<open>lib/p/x.py\<close>, so the
  line of the snapshot for this very file is not found.
\<close>

theorem find_in_cache_inner_root_removed:
  "relative_path (entry_of ''/p/lib/p/x.py'' False False) (holding ''/p'' [''?? lib/p/x.py'']) = ''libx.py''
   \<and> find_in_cache (entry_of ''/p/lib/p/x.py'' False False) (holding ''/p'' [''?? lib/p/x.py'']) = []"
  by (simp add: relative_path_def find_in_cache_def holding_def init_def str_of_def
        startswith_def entry_of_def)

text \<open>
  Claim C4 says that a file candidate matches only the line of its own path: the file
  candidate \<^verbatim>\<open>dir\<close> does not match the line of \<^verbatim>\<open>dirty.txt\<close>. The method adds the slash
  to a directory so that only paths below it match, and the directory candidate \<^verbatim>\<open>dir\<close>
  does not match \<^verbatim>\<open>dirty.txt\<close>; for a file it tests the same \<^verbatim>\<open>startswith\<close> with nothing
  that ends the name, so the file candidate \<^verbatim>\<open>dir\<close> is given the line of \<^verbatim>\<open>dirty.txt\<close>,
  and the unchanged file \<^verbatim>\<open>Makefile\<close> is labelled with the glyph of the modified
  \<^verbatim>\<open>Makefile.am\<close>.
\<close>

theorem find_in_cache_file_prefix_match:
  "find_in_cache (entry_of ''/r/dir'' False False) (holding ''/r'' [''?? dirty.txt'']) = ''?? dirty.txt''
   \<and> find_in_cache (entry_of ''/r/dir'' True False) (holding ''/r'' [''?? dirty.txt'']) = []
   \<and> find_in_cache (entry_of ''/r/Makefile'' False False) (holding ''/r'' ['' M Makefile.am''])
       = '' M Makefile.am''
   \<and> fst (get (git_prints 0 [] []) (entry_of ''/r/Makefile'' False False)
             (holding ''/r'' ['' M Makefile.am'']))
       = Inr ''M ''"
  by (simp add: get_def get_entry_def format_def getitem_def get_indicator_name_def glyphs_def
        relative_path_def find_in_cache_def holding_def init_def str_of_def
        startswith_def entry_of_def)

subsection \<open>A candidate that is not a root\<close>

text \<open>
  Claim C8. For a candidate that is not flagged as a root, \<open>get\<close> returns the object as
  it was (snapshot, root, and no process run or editor command added), so resolving the
  same candidate again, whatever the surroundings are by then, gives the same answer.
\<close>

theorem get_non_root_reads_only:
  assumes "\<not> is_root c"
  shows "snd (get e c s) = s \<and> get e' c (snd (get e c s)) = get e c s"
  using assms by (simp add: get_def split: sum.splits)

theorem get_non_root_reads_only_witness:
  "snd (get (git_prints 0 [] []) (entry_of ''/r/a.txt'' False False) (holding ''/r'' [''M  a.txt'']))
     = holding ''/r'' [''M  a.txt'']
   \<and> get git_missing (entry_of ''/r/a.txt'' False False)
        (snd (get (git_prints 0 [] []) (entry_of ''/r/a.txt'' False False) (holding ''/r'' [''M  a.txt''])))
     = (Inr ''S '', holding ''/r'' [''M  a.txt''])"
  using get_non_root_reads_only[of "entry_of ''/r/a.txt'' False False" "git_prints 0 [] []"
      "holding ''/r'' [''M  a.txt'']" git_missing]
  by (simp add: entry_of_def get_def format_def get_entry_def find_in_cache_def relative_path_def
      holding_def init_def str_of_def startswith_def getitem_def get_indicator_name_def glyphs_def)

subsection \<open>The exceptions of the sort\<close>

text \<open>
  The sort raises what the comparison raises and nothing else; the comparator of the
  column raises only IndexError, and only on a line of fewer than two characters.
\<close>

lemma key_lt_exn: "key_lt sort_cmp a b = Inl x \<Longrightarrow> x = IndexError"
  by (auto simp: key_lt_def sort_cmp_def flagged_def getitem_def split: sum.splits if_splits)

lemma count_desc_exn:
  assumes "\<forall>a b x. lt a b = Inl x \<longrightarrow> x = E"
  shows "count_desc lt prev xs = Inl x \<Longrightarrow> x = E"
  using assms by (induction xs arbitrary: prev) (auto split: sum.splits if_splits)

lemma count_asc_exn:
  assumes "\<forall>a b x. lt a b = Inl x \<longrightarrow> x = E"
  shows "count_asc lt prev xs = Inl x \<Longrightarrow> x = E"
  using assms by (induction xs arbitrary: prev) (auto split: sum.splits if_splits)

lemma count_run_exn:
  assumes "\<forall>a b x. lt a b = Inl x \<longrightarrow> x = E" and "count_run lt xs = Inl x"
  shows "x = E"
proof (cases xs)
  case Nil
  with assms(2) show ?thesis by (simp add: count_run_def)
next
  case (Cons x0 xs')
  show ?thesis
  proof (cases xs')
    case Nil
    with Cons assms(2) show ?thesis by (simp add: count_run_def)
  next
    case (Cons x1 rest)
    with \<open>xs = x0 # xs'\<close> assms(2) show ?thesis
      using assms(1) count_desc_exn[OF assms(1), of x1 rest x] count_asc_exn[OF assms(1), of x1 rest x]
      by (auto simp: count_run_def split: sum.splits if_splits)
  qed
qed

lemma bisect_exn:
  assumes "\<forall>a b x. lt a b = Inl x \<longrightarrow> x = E"
  shows "bisect lt pivot xs l r = Inl x \<Longrightarrow> x = E"
  using assms
proof (induction lt pivot xs l r rule: bisect.induct)
  case (1 lt pivot xs l r)
  show ?case
  proof (cases "l < r")
    case False
    with "1.prems" show ?thesis by (simp add: bisect.simps)
  next
    case True
    define p where "p = l + (r - l) div 2"
    show ?thesis
    proof (cases "lt pivot (xs ! p)")
      case (Inl y)
      with "1.prems" True show ?thesis
        by (subst (asm) bisect.simps) (auto simp: p_def Let_def)
    next
      case (Inr b)
      show ?thesis
      proof (cases b)
        case b: True
        with "1.prems"(1) True Inr have "bisect lt pivot xs l p = Inl x"
          by (subst (asm) bisect.simps) (simp add: p_def Let_def)
        with "1.IH"(1)[OF True p_def Inr b _ "1.prems"(2)] show ?thesis by simp
      next
        case b: False
        with "1.prems"(1) True Inr have "bisect lt pivot xs (p + 1) r = Inl x"
          by (subst (asm) bisect.simps) (simp add: p_def Let_def)
        with "1.IH"(2)[OF True p_def Inr b _ "1.prems"(2)] show ?thesis by simp
      qed
    qed
  qed
qed

lemma binarysort_exn:
  assumes "\<forall>a b x. lt a b = Inl x \<longrightarrow> x = E"
  shows "binarysort lt front rest = Inl x \<Longrightarrow> x = E"
  by (induction rest arbitrary: front) (auto split: sum.splits dest: bisect_exn[OF assms])

lemma sorted_py_exn:
  assumes "\<forall>a b x. lt a b = Inl x \<longrightarrow> x = E" and "sorted_py lt xs = Inl x"
  shows "x = E"
  using assms(2) count_run_exn[OF assms(1), of xs x]
  by (auto simp: sorted_py_def split: if_splits sum.splits prod.splits
      dest: binarysort_exn[OF assms(1)])

lemma sorted_py_lines_exn:
  assumes "sorted_py (key_lt sort_cmp) ls = Inl x"
  shows "x = IndexError \<and> (\<exists>l\<in>set ls. length l < 2)"
proof -
  have "\<forall>a b x. key_lt sort_cmp a b = Inl x \<longrightarrow> x = IndexError"
    using key_lt_exn by blast
  from sorted_py_exn[OF this assms] have "x = IndexError" .
  moreover have "\<exists>l\<in>set ls. length l < 2"
  proof (rule ccontr)
    assume "\<not> (\<exists>l\<in>set ls. length l < 2)"
    then have "\<forall>l\<in>set ls. 2 \<le> length l" by (simp add: not_less)
    from sorted_py_wf[OF this] assms show False by auto
  qed
  ultimately show ?thesis by simp
qed

subsection \<open>The lines of an output\<close>

text \<open>
  Splitting at the line ends gives back the lines that were printed, and one empty string
  after the last line end, which \<open>status_lines\<close> drops with the other empty lines.
\<close>

lemma split_line: "sep \<notin> set w \<Longrightarrow> split sep (w @ sep # rest) = w # split sep rest"
  by (induction w) (auto split: list.splits)

lemma split_unlines:
  "\<forall>l\<in>set ls. newline \<notin> set l \<Longrightarrow> split newline (unlines ls) = ls @ [[]]"
  by (induction ls) (auto simp: unlines_def split_line)

lemma status_lines_unlines:
  "\<forall>l\<in>set ls. newline \<notin> set l \<Longrightarrow> status_lines (unlines ls) = filter (\<lambda>l. l \<noteq> []) ls"
  by (simp add: status_lines_def split_unlines)

lemma unlines_Nil_iff: "unlines ls = [] \<longleftrightarrow> ls = []"
  by (cases ls) (auto simp: unlines_def)

subsection \<open>Refreshing the snapshot\<close>

lemma status_cmd_cache [simp]: "status_cmd (s\<lparr>cache := c\<rparr>) = status_cmd s"
  by (simp add: status_cmd_def)

text \<open>
  Claim C10. After any call of \<open>cache_status\<close> the snapshot is empty or is the sorted
  list of the non-empty lines of the output the status query has just given: it is empty
  whenever the call raises, and otherwise empty or the new list. What the snapshot held
  before the call has no influence on what it holds after.
\<close>

theorem cache_status_snapshot:
  "(case fst (cache_status e path s) of
      Inl x \<Rightarrow> cache (snd (cache_status e path s)) = []
    | Inr u \<Rightarrow>
        cache (snd (cache_status e path s)) = []
        \<or> (\<exists>code decoded.
              run e (status_cmd s) (map_option snd path) = Completed code (Inr decoded)
              \<and> sorted_py (key_lt sort_cmp) (status_lines decoded)
                   = Inr (cache (snd (cache_status e path s)))))
   \<and> cache (snd (cache_status e path (s\<lparr>cache := old\<rparr>))) = cache (snd (cache_status e path s))"
  by (simp add: cache_status_def Let_def split: outcome.splits sum.splits)

text \<open>
  Claim C7, as amended. When the status query has completed and its output is decoded,
  \<open>cache_status\<close> drops the empty lines only and skips no other line. If it returns, the
  snapshot is a rearrangement of all non-empty lines of the output, a line shorter than
  two characters among them; if it raises, the exception is IndexError, some line of the
  output is shorter than two characters, and the snapshot is left empty. When every
  non-empty line has at least two characters it returns.
\<close>

theorem cache_status_keeps_lines:
  assumes "run e (status_cmd s) (map_option snd path) = Completed code (Inr decoded)"
  shows "(case fst (cache_status e path s) of
            Inr u \<Rightarrow> mset (cache (snd (cache_status e path s))) = mset (status_lines decoded)
          | Inl x \<Rightarrow> x = IndexError \<and> cache (snd (cache_status e path s)) = []
                     \<and> (\<exists>l\<in>set (status_lines decoded). length l < 2))
       \<and> ((\<forall>l\<in>set (status_lines decoded). 2 \<le> length l)
            \<longrightarrow> fst (cache_status e path s) = Inr ())"
proof (cases "decoded = []")
  case True
  with assms show ?thesis
    by (simp add: cache_status_def Let_def status_lines_def)
next
  case False
  show ?thesis
  proof (cases "sorted_py (key_lt sort_cmp) (status_lines decoded)")
    case (Inl x)
    from sorted_py_lines_exn[OF Inl] have x: "x = IndexError" "\<exists>l\<in>set (status_lines decoded). length l < 2"
      by auto
    then have "\<not> (\<forall>l\<in>set (status_lines decoded). 2 \<le> length l)" by (auto simp: not_le)
    with assms False Inl x show ?thesis
      by (simp add: cache_status_def Let_def)
  next
    case (Inr ls)
    from sorted_py_mset[OF Inr] assms False Inr show ?thesis
      by (simp add: cache_status_def Let_def)
  qed
qed

theorem cache_status_keeps_lines_witness:
  "fst (cache_status (git_prints 0 [] (unlines [''?? new.txt'', [], ''M  file.txt''])) None (init glyphs 2 False)) = Inr ()
   \<and> mset (cache (snd (cache_status (git_prints 0 [] (unlines [''?? new.txt'', [], ''M  file.txt''])) None (init glyphs 2 False))))
      = mset [''?? new.txt'', ''M  file.txt'']"
proof -
  let ?out = "unlines [''?? new.txt'', [], ''M  file.txt'']"
  let ?e = "git_prints 0 [] ?out"
  let ?s = "init glyphs 2 False"
  have ran: "run ?e (status_cmd ?s) (map_option snd None) = Completed 0 (Inr ?out)"
    by (simp add: git_prints_def status_cmd_def rev_parse_cmd_def init_def)
  have ls: "status_lines ?out = [''?? new.txt'', ''M  file.txt'']"
    by (simp add: status_lines_unlines newline_def)
  note kept = cache_status_keeps_lines[OF ran]
  from kept have ok: "fst (cache_status ?e None ?s) = Inr ()"
    unfolding ls by simp
  with kept show ?thesis unfolding ls by simp
qed

text \<open>
  Claim C7 as stated says that a malformed line is skipped and the other lines are
  cached. With the output \<^verbatim>\<open>M  a.txt\<close>, \<^verbatim>\<open>x\<close> the comparator reads the second character
  of \<^verbatim>\<open>x\<close>, the call raises IndexError and nothing is cached; with the output \<^verbatim>\<open>x\<close>
  alone no comparison is made and the malformed line becomes the snapshot.
\<close>

theorem cache_status_malformed_counterexample:
  "fst (cache_status (git_prints 0 [] (unlines [''M  a.txt'', ''x''])) None (init glyphs 2 False)) = Inl IndexError
   \<and> cache (snd (cache_status (git_prints 0 [] (unlines [''M  a.txt'', ''x''])) None (init glyphs 2 False))) = []
   \<and> cache (snd (cache_status (git_prints 0 [] (unlines [''x''])) None (init glyphs 2 False))) = [''x'']"
proof -
  have 1: "status_lines (unlines [''M  a.txt'', ''x'']) = [''M  a.txt'', ''x'']"
    by (simp add: status_lines_unlines newline_def)
  have 2: "status_lines (unlines [''x'']) = [''x'']"
    by (simp add: status_lines_unlines newline_def)
  have 3: "sorted_py (key_lt sort_cmp) [''M  a.txt'', ''x''] = Inl IndexError"
    by (simp add: sorted_py_def count_run_def key_lt_def sort_cmp_def flagged_def getitem_def)
  have 4: "sorted_py (key_lt sort_cmp) [''x''] = Inr [''x'']"
    by (simp add: sorted_py_def)
  show ?thesis
    by (simp add: cache_status_def git_prints_def status_cmd_def rev_parse_cmd_def init_def
          unlines_Nil_iff 1 2 3 4)
qed

subsection \<open>A git that fails\<close>

text \<open>
  Claim C6 says that no failure of a git process leaves \<open>cache_status\<close> or
  \<open>find_git_root\<close> as an exception, and that a failed refresh leaves the snapshot empty.
  Both methods catch \<^verbatim>\<open>subprocess.CalledProcessError\<close>, which \<^verbatim>\<open>subprocess.run\<close> raises only
  with \<^verbatim>\<open>check=True\<close>. When git cannot be started, \<^verbatim>\<open>run\<close> raises an OSError, and it leaves
  \<open>cache_status\<close>, \<open>find_git_root\<close> and \<open>get\<close>. When git status exits with the code 128 and
  its message, the message (standard error is merged into the output) becomes the snapshot.
\<close>

theorem git_failure_not_recovered:
  "fst (cache_status git_missing None (init glyphs 2 False)) = Inl OSError
   \<and> fst (find_git_root git_missing ''/b'' (init glyphs 2 False)) = Inl OSError
   \<and> fst (get git_missing (entry_of ''/b'' True True) (init glyphs 2 False)) = Inl OSError
   \<and> cache (snd (cache_status
         (git_prints 128 [] (unlines [''fatal: not a git repository (or any of the parent directories): .git'']))
         None (init glyphs 2 False)))
       = [''fatal: not a git repository (or any of the parent directories): .git'']"
proof -
  have 1: "status_lines (unlines [''fatal: not a git repository (or any of the parent directories): .git''])
      = [''fatal: not a git repository (or any of the parent directories): .git'']"
    by (simp add: status_lines_unlines newline_def)
  have 2: "fst (cache_status git_missing None (init glyphs 2 False)) = Inl OSError"
    by (simp add: cache_status_def git_missing_def init_def status_cmd_def)
  have 3: "fst (find_git_root git_missing ''/b'' (init glyphs 2 False)) = Inl OSError"
    by (simp add: find_git_root_def git_missing_def init_def)
  have 4: "fst (get git_missing (entry_of ''/b'' True True) (init glyphs 2 False)) = Inl OSError"
    by (simp add: get_def format_def find_git_root_def git_missing_def entry_of_def init_def)
  have 5: "cache (snd (cache_status
         (git_prints 128 [] (unlines [''fatal: not a git repository (or any of the parent directories): .git'']))
         None (init glyphs 2 False)))
       = [''fatal: not a git repository (or any of the parent directories): .git'']"
    by (simp add: cache_status_def git_prints_def init_def status_cmd_def rev_parse_cmd_def
          unlines_Nil_iff 1 sorted_py_def)
  from 2 3 4 5 show ?thesis by blast
qed

subsection \<open>What the two queries leave unchanged\<close>

lemma is_status_run_rev_parse [simp]: "\<not> is_status_run (Run rev_parse_cmd cwd)"
  by (simp add: is_status_run_def rev_parse_cmd_def)

lemma is_status_run_status [simp]: "is_status_run (Run (status_cmd s) cwd)"
  by (simp add: is_status_run_def status_cmd_def)

lemma is_status_run_command [simp]: "\<not> is_status_run (Command m)"
  by (simp add: is_status_run_def)

lemma find_git_root_frame:
  "cache (snd (find_git_root e p s)) = cache s"
  "git_root (snd (find_git_root e p s)) = git_root s"
  "indicators (snd (find_git_root e p s)) = indicators s"
  "column_length (snd (find_git_root e p s)) = column_length s"
  "show_ignored (snd (find_git_root e p s)) = show_ignored s"
  "refreshes (snd (find_git_root e p s)) = refreshes s"
  by (simp_all add: find_git_root_def Let_def new_str_def refreshes_def
      split: outcome.splits sum.splits)

lemma cache_status_frame:
  "git_root (snd (cache_status e path s)) = git_root s"
  "indicators (snd (cache_status e path s)) = indicators s"
  "column_length (snd (cache_status e path s)) = column_length s"
  "refreshes (snd (cache_status e path s)) = refreshes s + 1"
  by (simp_all add: cache_status_def Let_def refreshes_def
      split: outcome.splits sum.splits)

lemma cache_status_cache_cong:
  "show_ignored s' = show_ignored s \<Longrightarrow>
   cache (snd (cache_status e path s')) = cache (snd (cache_status e path s))"
  by (simp add: cache_status_def Let_def status_cmd_def split: outcome.splits sum.splits)

lemma format_empty:
  "format s [] = Inr d \<Longrightarrow> 0 \<le> column_length s \<and> d = replicate (nat (column_length s)) (CHR '' '')"
  by (auto simp: format_def split: if_splits)

lemma format_width:
  "format s g = Inr label \<Longrightarrow> int (length g) \<le> column_length s \<Longrightarrow>
   int (length label) = column_length s
   \<and> label = g @ replicate (nat (column_length s) - length g) (CHR '' '')"
  by (auto simp: format_def split: if_splits)

lemma get_entry_found:
  assumes "get_entry d c s = Inr label"
  shows "if cache s \<noteq> [] \<and> find_in_cache c s \<noteq> []
         then 2 \<le> length (find_in_cache c s)
              \<and> (\<exists>g. indicators s (get_indicator_name (find_in_cache c s ! 0) (find_in_cache c s ! 1)) = Some g
                     \<and> format s g = Inr label)
         else label = d"
  using assms
  by (auto simp: get_entry_def Let_def getitem_def split: if_splits option.splits)

lemma get_entry_cong:
  assumes "cache s' = cache s" "git_root s' = git_root s" "indicators s' = indicators s"
    "column_length s' = column_length s"
  shows "get_entry d c s' = get_entry d c s"
proof -
  have f: "\<And>x. format s' x = format s x" using assms(4) by (simp add: format_def)
  have fi: "find_in_cache c s' = find_in_cache c s"
    using assms(1,2) by (simp add: find_in_cache_def relative_path_def)
  show ?thesis unfolding get_entry_def f fi assms(1) assms(3) by (rule refl)
qed

lemma cache_status_result_cong:
  "show_ignored s' = show_ignored s \<Longrightarrow>
   fst (cache_status e path s') = fst (cache_status e path s)"
  by (simp add: cache_status_def Let_def status_cmd_def split: outcome.splits sum.splits)

lemma refreshes_trace_command [simp]:
  "refreshes (s\<lparr>trace := trace s @ [Command m]\<rparr>) = refreshes s"
  by (simp add: refreshes_def)

lemma refreshes_git_root [simp]: "refreshes (s\<lparr>git_root := r\<rparr>) = refreshes s"
  by (simp add: refreshes_def)

subsection \<open>The label\<close>

text \<open>
  Claim C9. When no configured glyph is longer than the column length, every label that
  \<open>get\<close> returns has exactly the column length, and it is this one: when the snapshot is
  looked at (always for a candidate that is not a root; for a root candidate only when its
  path does not start with the root held and the root query answers the very root held),
  the snapshot is not empty and \<open>find_in_cache\<close> finds a line, the label is the glyph
  configured for the category that \<open>get_indicator_name\<close> gives for the two code characters
  of that line, followed by spaces; in every other case it is all spaces.
\<close>

theorem get_label_resolved:
  assumes "\<forall>name g. indicators s name = Some g \<longrightarrow> int (length g) \<le> column_length s"
    and "fst (get e c s) = Inr label"
  shows "int (length label) = column_length s
     \<and> (if (is_root c \<longrightarrow>
               \<not> (git_root s \<noteq> None \<and> startswith (action__path c) (str_of (git_root s)))
               \<and> fst (find_git_root e (action__path c) s) = Inr (git_root s))
            \<and> cache s \<noteq> [] \<and> find_in_cache c s \<noteq> []
         then 2 \<le> length (find_in_cache c s)
              \<and> (\<exists>g. indicators s (get_indicator_name (find_in_cache c s ! 0) (find_in_cache c s ! 1)) = Some g
                     \<and> label = g @ replicate (nat (column_length s) - length g) (CHR '' ''))
         else label = replicate (nat (column_length s)) (CHR '' ''))"
proof -
  let ?p = "action__path c"
  let ?guard = "git_root s \<noteq> None \<and> startswith ?p (str_of (git_root s))"
  let ?looked = "is_root c \<longrightarrow> \<not> ?guard \<and> fst (find_git_root e ?p s) = Inr (git_root s)"
  let ?sp = "replicate (nat (column_length s)) (CHR '' '')"
  from assms(2) obtain d where d: "format s [] = Inr d"
    by (cases "format s []") (auto simp: get_def)
  from format_empty[OF d] have len: "0 \<le> column_length s" and dd: "d = ?sp" by auto
  have key: "if ?looked then get_entry d c s = Inr label else label = d"
  proof (cases "is_root c")
    case False
    with assms(2) d show ?thesis by (simp add: get_def)
  next
    case True
    show ?thesis
    proof (cases ?guard)
      case True
      with assms(2) d \<open>is_root c\<close> show ?thesis by (auto simp: get_def)
    next
      case False
      obtain r s1 where f: "find_git_root e ?p s = (r, s1)" by (cases "find_git_root e ?p s")
      from find_git_root_frame(1,2,3,4)[of e ?p s] f
      have fr: "cache s1 = cache s" "git_root s1 = git_root s" "indicators s1 = indicators s"
        "column_length s1 = column_length s" by simp_all
      let ?s2 = "s1\<lparr>trace := trace s1 @ [Command (echomsg ?p)]\<rparr>"
      have cong: "get_entry d c ?s2 = get_entry d c s"
        by (rule get_entry_cong) (simp_all add: fr)
      from assms(2) d \<open>is_root c\<close> False f obtain root where r: "r = Inr root"
        by (cases r; cases "git_root s") (auto simp: get_def Let_def)
      show ?thesis
      proof (cases "root = git_root s")
        case eq: True
        from assms(2) d \<open>is_root c\<close> False f r eq fr(2)
        have "get_entry d c ?s2 = Inr label"
          by (cases "git_root s")
             (auto simp: get_def Let_def split: option.splits if_splits)
        with cong \<open>is_root c\<close> False f r eq show ?thesis by simp
      next
        case ne: False
        from assms(2) d \<open>is_root c\<close> False f r ne fr(2)
        have "label = d"
          by (cases "git_root s")
             (auto simp: get_def Let_def split: option.splits if_splits sum.splits prod.splits)
        with \<open>is_root c\<close> f r ne show ?thesis by simp
      qed
    qed
  qed
  show ?thesis
  proof (cases "?looked \<and> cache s \<noteq> [] \<and> find_in_cache c s \<noteq> []")
    case True
    then have ge: "get_entry d c s = Inr label" using key by simp
    from get_entry_found[OF ge] True
    obtain g where g: "2 \<le> length (find_in_cache c s)"
      "indicators s (get_indicator_name (find_in_cache c s ! 0) (find_in_cache c s ! 1)) = Some g"
      "format s g = Inr label" by auto
    from assms(1) g(2) have "int (length g) \<le> column_length s" by blast
    from format_width[OF g(3) this] g(1,2) True show ?thesis by auto
  next
    case False
    have "label = d"
    proof (cases ?looked)
      case True
      with key have ge: "get_entry d c s = Inr label" by simp
      from get_entry_found[OF ge] False True show ?thesis by auto
    next
      case False
      with key show ?thesis by simp
    qed
    with dd len False show ?thesis by auto
  qed
qed

theorem get_label_resolved_witness:
  "get (git_prints 0 [] []) (entry_of ''/r/a.txt'' False False) (holding ''/r'' [''M  a.txt''])
     = (Inr ''S '', holding ''/r'' [''M  a.txt''])
   \<and> find_in_cache (entry_of ''/r/a.txt'' False False) (holding ''/r'' [''M  a.txt'']) = ''M  a.txt''
   \<and> get_indicator_name (CHR ''M'') (CHR '' '') = ''Staged''
   \<and> indicators (holding ''/r'' [''M  a.txt'']) ''Staged'' = Some ''S''
   \<and> int (length ''S '') = column_length (holding ''/r'' [''M  a.txt''])"
proof -
  let ?e = "git_prints 0 [] []" and ?c = "entry_of ''/r/a.txt'' False False"
  let ?s = "holding ''/r'' [''M  a.txt'']"
  have fits: "\<forall>name g. indicators ?s name = Some g \<longrightarrow> int (length g) \<le> column_length ?s"
    by (auto simp: holding_def init_def glyphs_def split: if_splits)
  have res: "get ?e ?c ?s = (Inr ''S '', ?s)"
    by (simp add: entry_of_def get_def format_def get_entry_def find_in_cache_def relative_path_def
      holding_def init_def str_of_def startswith_def getitem_def get_indicator_name_def glyphs_def)
  have fnd: "find_in_cache ?c ?s = ''M  a.txt''"
    by (simp add: entry_of_def find_in_cache_def relative_path_def holding_def init_def
      str_of_def startswith_def)
  have nm: "get_indicator_name (CHR ''M'') (CHR '' '') = ''Staged''"
    by (simp add: get_indicator_name_def)
  have gl: "indicators ?s ''Staged'' = Some ''S''"
    by (simp add: holding_def init_def glyphs_def)
  from res have "fst (get ?e ?c ?s) = Inr ''S ''" by simp
  from get_label_resolved[OF fits this] have "int (length ''S '') = column_length ?s" by blast
  with res fnd nm gl show ?thesis by blast
qed

subsection \<open>A root candidate\<close>

text \<open>
  Claim C5, as amended. For a root candidate and a column length that is not negative:
  when the path starts with the root the column holds, \<open>get\<close> returns the label of
  spaces and leaves the object as it was, with no query run. Otherwise, when the root
  query and the editor command raise nothing: if the root found differs as a value from
  the root held (no root counting as a value, so also when a root is held and none is
  found), exactly one refresh is made, the root found is stored, the snapshot is the one
  of that refresh, and the answer is the label of spaces unless the refresh raises; if no
  root is found and none is held, no refresh is made and root and snapshot stay as they
  were. Nothing is said here about a root found that equals the root held as a value.
\<close>

theorem get_root_refresh:
  assumes "is_root c" and "0 \<le> column_length s"
  shows "(git_root s \<noteq> None \<and> startswith (action__path c) (str_of (git_root s))
            \<longrightarrow> get e c s = (Inr (replicate (nat (column_length s)) (CHR '' '')), s))
     \<and> (\<not> (git_root s \<noteq> None \<and> startswith (action__path c) (str_of (git_root s)))
          \<and> fst (find_git_root e (action__path c) s) = Inr root
          \<and> vim_command e (echomsg (action__path c)) = None
        \<longrightarrow> (map_option snd root \<noteq> map_option snd (git_root s)
               \<longrightarrow> refreshes (snd (get e c s)) = refreshes s + 1
                   \<and> git_root (snd (get e c s)) = root
                   \<and> cache (snd (get e c s)) = cache (snd (cache_status e root s))
                   \<and> fst (get e c s)
                       = (case fst (cache_status e root s) of
                            Inl x \<Rightarrow> Inl x
                          | Inr u \<Rightarrow> Inr (replicate (nat (column_length s)) (CHR '' ''))))
            \<and> (root = None \<and> git_root s = None
               \<longrightarrow> refreshes (snd (get e c s)) = refreshes s
                   \<and> cache (snd (get e c s)) = cache s
                   \<and> git_root (snd (get e c s)) = None))"
proof -
  let ?d = "replicate (nat (column_length s)) (CHR '' '')"
  let ?p = "action__path c"
  let ?guard = "git_root s \<noteq> None \<and> startswith ?p (str_of (git_root s))"
  have d: "format s [] = Inr ?d" using assms(2) by (simp add: format_def)
  have A: "?guard \<longrightarrow> get e c s = (Inr ?d, s)"
    using assms(1) d by (simp add: get_def)
  have B: "refreshes (snd (get e c s)) = refreshes s + 1
           \<and> git_root (snd (get e c s)) = root
           \<and> cache (snd (get e c s)) = cache (snd (cache_status e root s))
           \<and> fst (get e c s) = (case fst (cache_status e root s) of Inl x \<Rightarrow> Inl x | Inr u \<Rightarrow> Inr ?d)"
    if ng: "\<not> ?guard" and f: "fst (find_git_root e ?p s) = Inr root"
      and v: "vim_command e (echomsg ?p) = None"
      and ne: "map_option snd root \<noteq> map_option snd (git_root s)"
  proof -
    obtain s1 where f1: "find_git_root e ?p s = (Inr root, s1)"
      using f by (cases "find_git_root e ?p s") auto
    have fr: "git_root s1 = git_root s" "show_ignored s1 = show_ignored s" "refreshes s1 = refreshes s"
      using find_git_root_frame(2,5,6)[of e ?p s] f1 by simp_all
    let ?s3 = "s1\<lparr>trace := trace s1 @ [Command (echomsg ?p)], git_root := root\<rparr>"
    have ne': "root \<noteq> git_root s1" using ne fr(1) by auto
    have g: "get e c s = (case cache_status e root ?s3 of
                (Inl x, s4) \<Rightarrow> (Inl x, s4) | (Inr u, s4) \<Rightarrow> (Inr ?d, s4))"
      using assms(1) d ng f1 v ne' by (cases "git_root s") (simp_all add: get_def Let_def)
    obtain r4 s4 where cs: "cache_status e root ?s3 = (r4, s4)" by (cases "cache_status e root ?s3")
    have g': "snd (get e c s) = s4" "fst (get e c s) = (case r4 of Inl x \<Rightarrow> Inl x | Inr u \<Rightarrow> Inr ?d)"
      using g cs by (simp_all split: sum.splits)
    have si: "show_ignored ?s3 = show_ignored s" using fr(2) by simp
    have 1: "refreshes s4 = refreshes s + 1"
      using cache_status_frame(4)[of e root ?s3] cs fr(3) by simp
    have 2: "git_root s4 = root"
      using cache_status_frame(1)[of e root ?s3] cs by simp
    have 3: "cache s4 = cache (snd (cache_status e root s))"
      using cache_status_cache_cong[OF si, of e root] cs by simp
    have 4: "r4 = fst (cache_status e root s)"
      using cache_status_result_cong[OF si, of e root] cs by simp
    from g' 1 2 3 4 show ?thesis by simp
  qed
  have C: "refreshes (snd (get e c s)) = refreshes s \<and> cache (snd (get e c s)) = cache s
           \<and> git_root (snd (get e c s)) = None"
    if ng: "\<not> ?guard" and f: "fst (find_git_root e ?p s) = Inr root"
      and v: "vim_command e (echomsg ?p) = None"
      and nn: "root = None" "git_root s = None"
  proof -
    obtain s1 where f1: "find_git_root e ?p s = (Inr None, s1)"
      using f nn(1) by (cases "find_git_root e ?p s") auto
    have fr: "git_root s1 = None" "cache s1 = cache s" "refreshes s1 = refreshes s"
      using find_git_root_frame(1,2,6)[of e ?p s] f1 nn(2) by simp_all
    let ?s2 = "s1\<lparr>trace := trace s1 @ [Command (echomsg ?p)]\<rparr>"
    have "get e c s = (get_entry ?d c ?s2, ?s2)"
      using assms(1) d ng f1 v fr(1) nn(2) by (simp add: get_def Let_def)
    with fr show ?thesis by simp
  qed
  from A B C show ?thesis by blast
qed

theorem get_root_refresh_witness:
  "refreshes (snd (get (git_prints 0 (unlines [''/r'']) (unlines [''M  a.txt'']))
                     (entry_of ''/r'' True True) (init glyphs 2 False)))
     = refreshes (init glyphs 2 False) + 1
   \<and> git_root (snd (get (git_prints 0 (unlines [''/r'']) (unlines [''M  a.txt'']))
                     (entry_of ''/r'' True True) (init glyphs 2 False)))
     = Some (Heap 0, ''/r'')
   \<and> cache (snd (get (git_prints 0 (unlines [''/r'']) (unlines [''M  a.txt'']))
                     (entry_of ''/r'' True True) (init glyphs 2 False)))
     = [''M  a.txt'']
   \<and> fst (get (git_prints 0 (unlines [''/r'']) (unlines [''M  a.txt'']))
                     (entry_of ''/r'' True True) (init glyphs 2 False))
     = Inr ''  ''"
proof -
  let ?e = "git_prints 0 (unlines [''/r'']) (unlines [''M  a.txt''])"
  let ?c = "entry_of ''/r'' True True" and ?s = "init glyphs 2 False"
  let ?root = "Some (Heap 0, ''/r'')"
  have h1: "is_root ?c" by (simp add: entry_of_def)
  have h2: "0 \<le> column_length ?s" by (simp add: init_def)
  have h3: "\<not> (git_root ?s \<noteq> None \<and> startswith (action__path ?c) (str_of (git_root ?s)))"
    by (simp add: init_def)
  have h4: "fst (find_git_root ?e (action__path ?c) ?s) = Inr ?root"
    by (simp add: find_git_root_def git_prints_def entry_of_def init_def new_str_def
          unlines_def strip_def newline_def)
  have h5: "vim_command ?e (echomsg (action__path ?c)) = None"
    by (simp add: git_prints_def)
  have h6: "map_option snd ?root \<noteq> map_option snd (git_root ?s)"
    by (simp add: init_def)
  have ls: "status_lines (unlines [''M  a.txt'']) = [''M  a.txt'']"
    by (simp add: status_lines_unlines newline_def)
  have cs: "cache_status ?e ?root ?s
      = (Inr (), ?s\<lparr>trace := [Run (status_cmd ?s) (Some ''/r'')], cache := [''M  a.txt'']\<rparr>)"
    by (simp add: cache_status_def git_prints_def init_def status_cmd_def rev_parse_cmd_def
          unlines_Nil_iff ls sorted_py_def)
  from get_root_refresh[OF h1 h2, of ?e ?root] h3 h4 h5 h6
  have "refreshes (snd (get ?e ?c ?s)) = refreshes ?s + 1
      \<and> git_root (snd (get ?e ?c ?s)) = ?root
      \<and> cache (snd (get ?e ?c ?s)) = cache (snd (cache_status ?e ?root ?s))
      \<and> fst (get ?e ?c ?s)
           = (case fst (cache_status ?e ?root ?s) of
                Inl x \<Rightarrow> Inl x
              | Inr u \<Rightarrow> Inr (replicate (nat (column_length ?s)) (CHR '' '')))"
    by blast
  then show ?thesis unfolding cs by (simp add: init_def numeral_2_eq_2)
qed

text \<open>
  Claim C5 as stated says that a resolution that yields none makes no refresh and leaves
  the snapshot unchanged. With the root \<^verbatim>\<open>/a\<close> held and the root candidate \<^verbatim>\<open>/b\<close>
  outside any repository, the root query prints nothing, None is stored as the root, and
  \<open>cache_status\<close> is called: one status query more is run and the snapshot is replaced.
\<close>

theorem get_root_none_counterexample:
  "fst (find_git_root (git_prints 128 [] []) ''/b'' (holding ''/a'' [''M  x''])) = Inr None
   \<and> refreshes (holding ''/a'' [''M  x'']) = 0
   \<and> refreshes (snd (get (git_prints 128 [] []) (entry_of ''/b'' True True) (holding ''/a'' [''M  x'']))) = 1
   \<and> cache (snd (get (git_prints 128 [] []) (entry_of ''/b'' True True) (holding ''/a'' [''M  x'']))) = []
   \<and> git_root (snd (get (git_prints 128 [] []) (entry_of ''/b'' True True) (holding ''/a'' [''M  x'']))) = None"
  by (simp add: get_def format_def find_git_root_def cache_status_def git_prints_def entry_of_def
        holding_def init_def str_of_def startswith_def status_cmd_def rev_parse_cmd_def
        refreshes_def is_status_run_def)

end
